theory Spec2Isabelle
  imports Main "HOL-Library.Word"
begin

unbundle bit_operations_syntax

section \<open>Data model of the engine runtime\<close>

text \<open>
  The model follows \<^verbatim>\<open>scanner/engine/runtime.cpp\<close>. Protobuf messages and the
  structs of \<^verbatim>\<open>runtime.h\<close> are records with the fields the code reads and
  writes. Row counts, row positions and planner indices are mathematical
  integers: every value the planner computes is bounded by the size of a vector
  held in memory, far below the range of \<^verbatim>\<open>i64\<close>. The cursor of the master is a
  32-bit word, as declared.
\<close>

type_synonym i32 = "32 word"

record TableSample =
  job_id :: int
  table_id :: int
  column_ids :: "int list"
  rows :: "int list"

record Task =
  samples :: "TableSample list"

record IOItem =
  table_id :: int
  item_id :: int
  start_row :: int
  end_row :: int

record LoadWorkEntry =
  io_item_index :: int
  samples :: "TableSample list"

text \<open>
  \<^verbatim>\<open>DeviceType\<close> is declared outside this file; the code tests it for \<^verbatim>\<open>CPU\<close> and
  \<^verbatim>\<open>GPU\<close> and treats every other value alike.
\<close>

datatype DeviceType = CPU | GPU | OtherDevice nat

type_synonym DeviceHandle = "DeviceType \<times> int"

record EvaluatorInput =
  evaluator_index :: int
  columns :: "string list"

record Evaluator =
  name :: string
  device_type :: DeviceType
  device_count :: int
  kernel_args :: "8 word list"
  inputs :: "EvaluatorInput list"

record TaskSet =
  tasks :: "Task list"
  evaluators :: "Evaluator list"

record JobParameters =
  job_name :: string
  task_set :: TaskSet

record Kernel_Config =
  args :: "8 word list"
  input_columns :: "string list"
  devices :: "DeviceHandle list"

text \<open>
  The ways the code stops instead of returning: a failed \<^verbatim>\<open>assert\<close>, a read of a
  repeated field past its size (protobuf checks the index in debug builds only),
  \<^verbatim>\<open>LOG(FATAL)\<close> on an unknown device type, an integer remainder by zero, and
  \<^verbatim>\<open>exit(EXIT_FAILURE)\<close> after a failed \<^verbatim>\<open>pthread_join\<close>. The model is the build
  with assertions and index checks compiled in; without them the first two are
  undefined behaviour.
\<close>

datatype error =
    AssertionFailed
  | IndexOutOfRange
  | UnrecognizedDeviceType
  | DivisionByZero
  | ThreadJoinFailure

section \<open>The I/O item planner: \<^verbatim>\<open>create_io_items\<close>\<close>

text \<open>
  Lines 82--84: \<^verbatim>\<open>for (; s < e; ++s) load_sample->add_rows(sample.rows(s));\<close>
\<close>

function add_rows :: "int list \<Rightarrow> int \<Rightarrow> int \<Rightarrow> int list \<Rightarrow> error + int list" where
  "add_rows sample_rows s e acc =
     (if s < e then
        (if 0 \<le> s \<and> s < int (length sample_rows)
         then add_rows sample_rows (s + 1) e (acc @ [sample_rows ! nat s])
         else Inl IndexOutOfRange)
      else Inr acc)"
  by pat_completeness auto
termination
  by (relation "measure (\<lambda>(sample_rows, s, e, acc). nat (e - s))") auto

declare add_rows.simps [simp del]

text \<open>
  Lines 70--84, the body of the loop over the samples of a task: the new sample
  copies \<^verbatim>\<open>job_id\<close>, \<^verbatim>\<open>table_id\<close> and every column id, then the rows at positions
  \<^verbatim>\<open>max(allocated_rows - warmup_size, 0)\<close> up to \<^verbatim>\<open>allocated_rows + rows_to_allocate\<close>.
\<close>

definition load_sample :: "int \<Rightarrow> int \<Rightarrow> int \<Rightarrow> TableSample \<Rightarrow> error + TableSample" where
  "load_sample warmup_size allocated_rows rows_to_allocate sample =
     (let e = allocated_rows + rows_to_allocate;
          s = max (allocated_rows - warmup_size) 0
      in case add_rows (rows sample) s e [] of
           Inl err \<Rightarrow> Inl err
         | Inr rs \<Rightarrow>
             Inr \<lparr>TableSample.job_id = TableSample.job_id sample,
                  TableSample.table_id = TableSample.table_id sample,
                  column_ids = column_ids sample,
                  rows = rs\<rparr>)"

text \<open>Line 69: \<^verbatim>\<open>for (auto& sample : task.samples())\<close>, appending to the entry.\<close>

fun add_samples ::
  "int \<Rightarrow> int \<Rightarrow> int \<Rightarrow> TableSample list \<Rightarrow> TableSample list \<Rightarrow> error + TableSample list" where
  "add_samples warmup_size allocated_rows rows_to_allocate [] acc = Inr acc"
| "add_samples warmup_size allocated_rows rows_to_allocate (sample # rest) acc =
     (case load_sample warmup_size allocated_rows rows_to_allocate sample of
        Inl err \<Rightarrow> Inl err
      | Inr ls \<Rightarrow> add_samples warmup_size allocated_rows rows_to_allocate rest (acc @ [ls]))"

text \<open>
  Lines 56--89, the \<^verbatim>\<open>while (allocated_rows < rows_in_task)\<close> loop. The two output
  vectors are threaded through as a pair. With \<^verbatim>\<open>io_item_size \<le> 0\<close> the loop never
  advances; not returning is the value \<open>None\<close>.
\<close>

partial_function (option) allocate_rows ::
  "int \<Rightarrow> int \<Rightarrow> int \<Rightarrow> Task \<Rightarrow> int \<Rightarrow> int \<Rightarrow> int \<Rightarrow>
   IOItem list \<times> LoadWorkEntry list \<Rightarrow> (error + IOItem list \<times> LoadWorkEntry list) option" where
  "allocate_rows io_item_size warmup_size i task rows_in_task next_item_id allocated_rows out =
     (if allocated_rows < rows_in_task then
        (let rows_to_allocate = min io_item_size (rows_in_task - allocated_rows);
             item = \<lparr>IOItem.table_id = i,
                     item_id = next_item_id,
                     start_row = allocated_rows,
                     end_row = allocated_rows + rows_to_allocate\<rparr>;
             io_items = fst out @ [item]
         in case add_samples warmup_size allocated_rows rows_to_allocate (Task.samples task) [] of
              Inl err \<Rightarrow> Some (Inl err)
            | Inr ss \<Rightarrow>
                allocate_rows io_item_size warmup_size i task rows_in_task
                  (next_item_id + 1) (allocated_rows + rows_to_allocate)
                  (io_items,
                   snd out @ [\<lparr>io_item_index = int (length io_items) - 1,
                               LoadWorkEntry.samples = ss\<rparr>]))
      else Some (Inr out))"

declare allocate_rows.simps [code]

text \<open>
  Lines 50--91, the loop over the tasks: the assertion on the sample list, the
  row count of the first sample, then the slicing loop with \<^verbatim>\<open>item_id\<close> and
  \<^verbatim>\<open>allocated_rows\<close> starting at 0. (\<^verbatim>\<open>total_rows\<close> is written and never read.)
\<close>

fun plan_tasks ::
  "int \<Rightarrow> int \<Rightarrow> Task list \<Rightarrow> int \<Rightarrow> IOItem list \<times> LoadWorkEntry list \<Rightarrow>
   (error + IOItem list \<times> LoadWorkEntry list) option" where
  "plan_tasks io_item_size warmup_size [] i out = Some (Inr out)"
| "plan_tasks io_item_size warmup_size (task # rest) i out =
     (if length (Task.samples task) > 0 then
        (case allocate_rows io_item_size warmup_size i task
                (int (length (rows (Task.samples task ! 0)))) 0 0 out of
           None \<Rightarrow> None
         | Some (Inl err) \<Rightarrow> Some (Inl err)
         | Some (Inr out') \<Rightarrow> plan_tasks io_item_size warmup_size rest (i + 1) out')
      else Some (Inl AssertionFailed))"

text \<open>
  \<^verbatim>\<open>create_io_items(task_set, io_items, load_work_entries)\<close>. The first argument is
  the value of \<^verbatim>\<open>rows_per_io_item()\<close>, whose definition is outside this file; the
  second is \<^verbatim>\<open>task_set.tasks()\<close> (line 47), the only part of the task set the
  function reads; the vectors are in-out parameters, appended to. Line 48 fixes
  \<^verbatim>\<open>warmup_size\<close> to 0.
\<close>

definition warmup_size_const :: int where
  "warmup_size_const = 0"

definition create_io_items ::
  "int \<Rightarrow> Task list \<Rightarrow> IOItem list \<Rightarrow> LoadWorkEntry list \<Rightarrow>
   (error + IOItem list \<times> LoadWorkEntry list) option" where
  "create_io_items io_item_size task_list io_items load_work_entries =
     plan_tasks io_item_size warmup_size_const task_list 0 (io_items, load_work_entries)"

section \<open>Kernel binding in \<^verbatim>\<open>WorkerImpl::NewJob\<close>\<close>

text \<open>
  Lines 170--173: \<^verbatim>\<open>for (i32 i = 0; i < evaluator.device_count(); ++i)\<close> with
  \<^verbatim>\<open>device_id = i % num_gpus\<close>. Both operands of the remainder are non-negative
  here, where C++ and HOL agree; a zero divisor stops the process.
\<close>

function gpu_devices :: "int \<Rightarrow> int \<Rightarrow> int \<Rightarrow> DeviceHandle list \<Rightarrow> error + DeviceHandle list" where
  "gpu_devices num_gpus count i devs =
     (if i < count then
        (if num_gpus = 0 then Inl DivisionByZero
         else gpu_devices num_gpus count (i + 1) (devs @ [(GPU, i mod num_gpus)]))
      else Inr devs)"
  by pat_completeness auto
termination
  by (relation "measure (\<lambda>(num_gpus, count, i, devs). nat (count - i))") auto

declare gpu_devices.simps [simp del]

text \<open>
  Lines 164--176. \<^verbatim>\<open>CPU_DEVICE\<close> and \<^verbatim>\<open>GPU_DEVICE_IDS\<close> are globals defined outside
  this file and are parameters here; \<^verbatim>\<open>num_gpus\<close> is the size of the latter
  (line 138).
\<close>

definition kernel_config_devices ::
  "DeviceHandle \<Rightarrow> int list \<Rightarrow> Evaluator \<Rightarrow> error + DeviceHandle list" where
  "kernel_config_devices CPU_DEVICE GPU_DEVICE_IDS evaluator =
     (let num_gpus = int (length GPU_DEVICE_IDS) in
      if device_type evaluator = CPU then Inr ([] @ [CPU_DEVICE])
      else if device_type evaluator = GPU then gpu_devices num_gpus (device_count evaluator) 0 []
      else Inl UnrecognizedDeviceType)"

text \<open>
  Lines 151--162: the columns of every input are appended in input order. The
  evaluator an input names is fetched with \<^verbatim>\<open>evaluators.Get\<close>; the registry entry
  looked up for it is not used. The kernel factory of line 142 comes from the
  kernel registry, which is outside this file, and is no part of the
  configuration.
\<close>

fun add_input_columns ::
  "Evaluator list \<Rightarrow> EvaluatorInput list \<Rightarrow> string list \<Rightarrow> error + string list" where
  "add_input_columns evs [] cols = Inr cols"
| "add_input_columns evs (input # rest) cols =
     (if 0 \<le> evaluator_index input \<and> evaluator_index input < int (length evs)
      then add_input_columns evs rest (cols @ columns input)
      else Inl IndexOutOfRange)"

text \<open>Lines 146--178, the configuration built for one evaluator.\<close>

definition make_kernel_config ::
  "DeviceHandle \<Rightarrow> int list \<Rightarrow> Evaluator list \<Rightarrow> Evaluator \<Rightarrow> error + Kernel_Config" where
  "make_kernel_config CPU_DEVICE GPU_DEVICE_IDS evs evaluator =
     (case add_input_columns evs (inputs evaluator) [] of
        Inl err \<Rightarrow> Inl err
      | Inr cols \<Rightarrow>
          (case kernel_config_devices CPU_DEVICE GPU_DEVICE_IDS evaluator of
             Inl err \<Rightarrow> Inl err
           | Inr devs \<Rightarrow>
               Inr \<lparr>args = kernel_args evaluator, input_columns = cols, devices = devs\<rparr>))"

text \<open>Lines 140--179, the loop over the evaluators of the task set.\<close>

fun bind_kernels ::
  "DeviceHandle \<Rightarrow> int list \<Rightarrow> Evaluator list \<Rightarrow> Evaluator list \<Rightarrow> Kernel_Config list \<Rightarrow>
   error + Kernel_Config list" where
  "bind_kernels CPU_DEVICE GPU_DEVICE_IDS evs [] kernel_configs = Inr kernel_configs"
| "bind_kernels CPU_DEVICE GPU_DEVICE_IDS evs (evaluator # rest) kernel_configs =
     (case make_kernel_config CPU_DEVICE GPU_DEVICE_IDS evs evaluator of
        Inl err \<Rightarrow> Inl err
      | Inr kernel_config \<Rightarrow>
          bind_kernels CPU_DEVICE GPU_DEVICE_IDS evs rest (kernel_configs @ [kernel_config]))"

section \<open>The master: \<^verbatim>\<open>MasterImpl\<close>\<close>

record MasterImpl =
  next_io_item_to_allocate :: i32
  num_io_items :: i32
  workers :: "string list"

text \<open>The constructor (lines 513--520) and \<^verbatim>\<open>RegisterWorker\<close> (lines 526--534).\<close>

definition MasterImpl_new :: MasterImpl where
  "MasterImpl_new = \<lparr>next_io_item_to_allocate = 0, num_io_items = 0, workers = []\<rparr>"


text \<open>
  \<^verbatim>\<open>NextIOItem\<close> (lines 536--546): the new state and the \<^verbatim>\<open>item_id\<close> of the reply.
  The comparison is the signed one of \<^verbatim>\<open>i32\<close>.
\<close>

definition NextIOItem :: "MasterImpl \<Rightarrow> MasterImpl \<times> i32" where
  "NextIOItem m =
     (if next_io_item_to_allocate m <s num_io_items m
      then (m\<lparr>next_io_item_to_allocate := next_io_item_to_allocate m + 1\<rparr>,
            next_io_item_to_allocate m)
      else (m, - 1))"

text \<open>A number of successive calls, with the replies in call order.\<close>

fun NextIOItem_calls :: "nat \<Rightarrow> MasterImpl \<Rightarrow> MasterImpl \<times> i32 list" where
  "NextIOItem_calls 0 m = (m, [])"
| "NextIOItem_calls (Suc n) m =
     (case NextIOItem m of
        (m', next_item) \<Rightarrow>
          (case NextIOItem_calls n m' of (m'', ids) \<Rightarrow> (m'', next_item # ids)))"

text \<open>
  The planning step of \<^verbatim>\<open>MasterImpl::NewJob\<close> (lines 580--582): the tasks of the
  job parameters and two fresh vectors are passed to the planner. The first
  argument is the value of \<^verbatim>\<open>rows_per_io_item()\<close>. \<^verbatim>\<open>WorkerImpl::NewJob\<close> makes the
  same call (lines 181--183).
\<close>

definition Master_NewJob_plan ::
  "int \<Rightarrow> JobParameters \<Rightarrow> (error + IOItem list \<times> LoadWorkEntry list) option" where
  "Master_NewJob_plan io_item_size job_params =
     create_io_items io_item_size (tasks (task_set job_params)) [] []"

text \<open>
  \<^verbatim>\<open>MasterImpl::NewJob\<close>, lines 563--583: the last evaluator is fetched with
  \<^verbatim>\<open>evaluators.Get(evaluators.size()-1)\<close>, the task set is planned, and
  \<^verbatim>\<open>num_io_items_\<close> is set to the number of items. No statement of \<^verbatim>\<open>NewJob\<close>
  assigns \<^verbatim>\<open>next_io_item_to_allocate_\<close>. The job descriptor built on the way
  (lines 558--578) takes its columns from the evaluator registry, which is
  outside this file; it does not bear on the cursor or on the order of the
  writes and is left out.
\<close>

definition Master_plan_job ::
  "int \<Rightarrow> JobParameters \<Rightarrow> MasterImpl \<Rightarrow> (error + MasterImpl) option" where
  "Master_plan_job io_item_size job_params m =
     (if evaluators (task_set job_params) = [] then Some (Inl IndexOutOfRange)
      else case Master_NewJob_plan io_item_size job_params of
             None \<Rightarrow> None
           | Some (Inl err) \<Rightarrow> Some (Inl err)
           | Some (Inr (io_items, load_work_entries)) \<Rightarrow>
               Some (Inr (m\<lparr>num_io_items := of_nat (length io_items)\<rparr>)))"







section \<open>The control loop of \<^verbatim>\<open>WorkerImpl::NewJob\<close>\<close>

text \<open>
  Lines 316--335. \<^verbatim>\<open>retired_items\<close> is an atomic counter that the save threads
  increment, and the master serves other workers too, so the loop is modelled as
  steps of this thread interleaved with steps of the others. One iteration is
  two steps: the read of the in-flight count at the top of the loop
  (\<open>AtTop\<close>), and the request to the master with what follows it
  (\<open>Requesting\<close>). \<^verbatim>\<open>load_work_entries[next_item]\<close> outside the vector stops the
  model (\<open>Crashed\<close>). The call to the master is taken to go through.
  \<^verbatim>\<open>PUS_PER_NODE\<close> and \<^verbatim>\<open>TASKS_IN_QUEUE_PER_PU\<close> are constants defined outside
  this file; they are counts, hence naturals.
\<close>

datatype loop_pc = AtTop | Requesting | Exited | Crashed

record ControlLoop =
  accepted_items :: int
  retired_items :: int
  load_work :: "LoadWorkEntry list"
  master :: MasterImpl
  pc :: loop_pc

definition control_loop_start :: "MasterImpl \<Rightarrow> ControlLoop" where
  "control_loop_start m =
     \<lparr>accepted_items = 0, retired_items = 0, load_work = [], master = m, pc = AtTop\<rparr>"

definition control_step :: "nat \<Rightarrow> nat \<Rightarrow> LoadWorkEntry list \<Rightarrow> ControlLoop \<Rightarrow> ControlLoop" where
  "control_step PUS_PER_NODE TASKS_IN_QUEUE_PER_PU load_work_entries s =
     (case pc s of
        AtTop \<Rightarrow>
          (let local_work = accepted_items s - retired_items s
           in if local_work < int (PUS_PER_NODE * TASKS_IN_QUEUE_PER_PU)
              then s\<lparr>pc := Requesting\<rparr> else s)
      | Requesting \<Rightarrow>
          (case NextIOItem (master s) of
             (m', reply) \<Rightarrow>
               (let next_item = sint reply
                in if next_item = - 1 then s\<lparr>master := m', pc := Exited\<rparr>
                   else if 0 \<le> next_item \<and> next_item < int (length load_work_entries)
                   then s\<lparr>master := m',
                          load_work := load_work s @ [load_work_entries ! nat next_item],
                          accepted_items := accepted_items s + 1,
                          pc := AtTop\<rparr>
                   else s\<lparr>master := m', pc := Crashed\<rparr>))
      | Exited \<Rightarrow> s
      | Crashed \<Rightarrow> s)"

text \<open>
  The steps that can interleave: a step of the control loop, a save thread
  retiring an item, another worker taking an item from the master.
\<close>

datatype loop_event = ControlThread | SaveThreadRetires | OtherWorkerRequests

fun loop_event_step ::
  "nat \<Rightarrow> nat \<Rightarrow> LoadWorkEntry list \<Rightarrow> loop_event \<Rightarrow> ControlLoop \<Rightarrow> ControlLoop" where
  "loop_event_step P T lwe ControlThread s = control_step P T lwe s"
| "loop_event_step P T lwe SaveThreadRetires s = s\<lparr>retired_items := retired_items s + 1\<rparr>"
| "loop_event_step P T lwe OtherWorkerRequests s = s\<lparr>master := fst (NextIOItem (master s))\<rparr>"

fun run_schedule ::
  "nat \<Rightarrow> nat \<Rightarrow> LoadWorkEntry list \<Rightarrow> loop_event list \<Rightarrow> ControlLoop \<Rightarrow> ControlLoop" where
  "run_schedule P T lwe [] s = s"
| "run_schedule P T lwe (e # es) s = run_schedule P T lwe es (loop_event_step P T lwe e s)"

section \<open>Termination of the pipeline in \<^verbatim>\<open>WorkerImpl::NewJob\<close>\<close>

text \<open>
  Lines 337--422 as the sequence of what the driver does to the queues and
  threads. \<^verbatim>\<open>eval_work[pu][k]\<close> is \<open>EvalWorkQueue pu k\<close>. A sentinel is an entry
  whose \<^verbatim>\<open>io_item_index\<close> is \<open>- 1\<close>. \<^verbatim>\<open>pthread_join\<close> is an argument: the error
  code it returns for each thread.
\<close>

datatype queue_id = LoadWorkQueue | InitialEvalWorkQueue | EvalWorkQueue nat nat | SaveWorkQueue

datatype thread_id =
  LoadThread nat | PreEvalThread nat | EvalThread nat | PostEvalThread nat | SaveThread nat

datatype driver_action = Push queue_id int | Join thread_id

text \<open>\<^verbatim>\<open>for (i32 i = 0; i < n; ++i) body\<close>, where the body may stop the process.\<close>

function for_loop :: "nat \<Rightarrow> nat \<Rightarrow> (nat \<Rightarrow> 's \<Rightarrow> error + 's) \<Rightarrow> 's \<Rightarrow> error + 's" where
  "for_loop i n body s =
     (if i < n then (case body i s of Inl err \<Rightarrow> Inl err | Inr s' \<Rightarrow> for_loop (i + 1) n body s')
      else Inr s)"
  by pat_completeness auto
termination
  by (relation "measure (\<lambda>(i, n, body, s). n - i)") auto

declare for_loop.simps [simp del]

fun run_stages :: "('s \<Rightarrow> error + 's) list \<Rightarrow> 's \<Rightarrow> error + 's" where
  "run_stages [] s = Inr s"
| "run_stages (stage # rest) s =
     (case stage s of Inl err \<Rightarrow> Inl err | Inr s' \<Rightarrow> run_stages rest s')"

definition push_sentinel :: "queue_id \<Rightarrow> driver_action list \<Rightarrow> error + driver_action list" where
  "push_sentinel q trace = Inr (trace @ [Push q (- 1)])"

definition join_thread ::
  "(thread_id \<Rightarrow> int) \<Rightarrow> thread_id \<Rightarrow> driver_action list \<Rightarrow> error + driver_action list" where
  "join_thread pthread_join t trace =
     (let err = pthread_join t
      in if err \<noteq> 0 then Inl ThreadJoinFailure else Inr (trace @ [Join t]))"

definition terminate_pipeline ::
  "nat \<Rightarrow> nat \<Rightarrow> nat \<Rightarrow> (thread_id \<Rightarrow> int) \<Rightarrow> error + driver_action list" where
  "terminate_pipeline LOAD_WORKERS_PER_NODE PUS_PER_NODE SAVE_WORKERS_PER_NODE pthread_join =
     run_stages
       [for_loop 0 LOAD_WORKERS_PER_NODE (\<lambda>i. push_sentinel LoadWorkQueue),
        for_loop 0 LOAD_WORKERS_PER_NODE (\<lambda>i. join_thread pthread_join (LoadThread i)),
        for_loop 0 PUS_PER_NODE (\<lambda>i. push_sentinel InitialEvalWorkQueue),
        for_loop 0 PUS_PER_NODE (\<lambda>i. join_thread pthread_join (PreEvalThread i)),
        for_loop 0 PUS_PER_NODE (\<lambda>pu. push_sentinel (EvalWorkQueue pu 1)),
        for_loop 0 PUS_PER_NODE (\<lambda>pu. join_thread pthread_join (EvalThread pu)),
        for_loop 0 PUS_PER_NODE (\<lambda>pu. push_sentinel (EvalWorkQueue pu 2)),
        for_loop 0 PUS_PER_NODE (\<lambda>pu. join_thread pthread_join (PostEvalThread pu)),
        for_loop 0 SAVE_WORKERS_PER_NODE (\<lambda>i. push_sentinel SaveWorkQueue),
        for_loop 0 SAVE_WORKERS_PER_NODE (\<lambda>i. join_thread pthread_join (SaveThread i))]
       []"

text \<open>
  The threads the worker creates (lines 210--213, 277--290, 308--311) and the
  queue each one was given as its input (lines 207, 228, 244, 262, 306).
\<close>

definition start_threads :: "nat \<Rightarrow> nat \<Rightarrow> nat \<Rightarrow> thread_id list" where
  "start_threads LOAD_WORKERS_PER_NODE PUS_PER_NODE SAVE_WORKERS_PER_NODE =
     map LoadThread [0..<LOAD_WORKERS_PER_NODE] @
     concat (map (\<lambda>pu. [PreEvalThread pu, EvalThread pu, PostEvalThread pu])
               [0..<PUS_PER_NODE]) @
     map SaveThread [0..<SAVE_WORKERS_PER_NODE]"

fun input_queue :: "thread_id \<Rightarrow> queue_id" where
  "input_queue (LoadThread i) = LoadWorkQueue"
| "input_queue (PreEvalThread pu) = InitialEvalWorkQueue"
| "input_queue (EvalThread pu) = EvalWorkQueue pu 1"
| "input_queue (PostEvalThread pu) = EvalWorkQueue pu 2"
| "input_queue (SaveThread i) = SaveWorkQueue"

section \<open>Vocabulary of the properties\<close>

text \<open>Line 54: the row count of a task is that of its first sample.\<close>

definition rows_in_task :: "Task \<Rightarrow> int" where
  "rows_in_task task = int (length (rows (Task.samples task ! 0)))"

text \<open>The row positions an item covers: \<open>start_row\<close> up to \<open>end_row\<close>, exclusive.\<close>

definition item_rows :: "IOItem \<Rightarrow> int list" where
  "item_rows item = [start_row item..end_row item - 1]"

text \<open>A sample cut down to the rows at positions \<open>lo\<close> up to \<open>hi\<close>, exclusive.\<close>

definition sample_slice :: "int \<Rightarrow> int \<Rightarrow> TableSample \<Rightarrow> TableSample" where
  "sample_slice lo hi sample =
     sample\<lparr>rows := take (nat (hi - lo)) (drop (nat lo) (rows sample))\<rparr>"

definition planned_item :: "int \<Rightarrow> int \<Rightarrow> int \<Rightarrow> int \<Rightarrow> IOItem" where
  "planned_item i j a r = \<lparr>IOItem.table_id = i, item_id = j, start_row = a, end_row = a + r\<rparr>"

definition planned_entry :: "int \<Rightarrow> nat \<Rightarrow> Task \<Rightarrow> int \<Rightarrow> int \<Rightarrow> LoadWorkEntry" where
  "planned_entry w k task a r =
     \<lparr>io_item_index = int k,
      LoadWorkEntry.samples = map (sample_slice (max (a - w) 0) (a + r)) (Task.samples task)\<rparr>"

text \<open>
  \<open>slices sz i j a N xs\<close>: the items \<open>xs\<close> belong to task \<open>i\<close>, are numbered from
  \<open>j\<close>, and cut the rows from \<open>a\<close> up to \<open>N\<close> into consecutive non-empty ranges of
  at most \<open>sz\<close> rows.
\<close>

fun slices :: "int \<Rightarrow> int \<Rightarrow> int \<Rightarrow> int \<Rightarrow> int \<Rightarrow> IOItem list \<Rightarrow> bool" where
  "slices sz i j a N [] \<longleftrightarrow> a = N"
| "slices sz i j a N (x # xs) \<longleftrightarrow>
     IOItem.table_id x = i \<and> item_id x = j \<and> start_row x = a \<and> a < end_row x \<and>
     end_row x - a \<le> sz \<and> end_row x \<le> N \<and> slices sz i (j + 1) (end_row x) N xs"

text \<open>
  \<open>entry_matches w task k item e\<close>: \<open>e\<close> is the load-work entry built for \<open>item\<close>
  of \<open>task\<close> at position \<open>k\<close> of the output, with warmup \<open>w\<close>.
\<close>

definition entry_matches :: "int \<Rightarrow> Task \<Rightarrow> nat \<Rightarrow> IOItem \<Rightarrow> LoadWorkEntry \<Rightarrow> bool" where
  "entry_matches w task k item e \<longleftrightarrow>
     io_item_index e = int k \<and>
     LoadWorkEntry.samples e =
       map (sample_slice (max (start_row item - w) 0) (end_row item)) (Task.samples task) \<and>
     0 \<le> start_row item \<and> start_row item < end_row item \<and>
     (\<forall>s\<in>set (Task.samples task). end_row item \<le> int (length (rows s)))"

definition aligned :: "int \<Rightarrow> Task list \<Rightarrow> IOItem list \<Rightarrow> LoadWorkEntry list \<Rightarrow> bool" where
  "aligned w ts its lw \<longleftrightarrow>
     length lw = length its \<and>
     (\<forall>k<length its. 0 \<le> IOItem.table_id (its ! k) \<and> nat (IOItem.table_id (its ! k)) < length ts \<and>
        entry_matches w (ts ! nat (IOItem.table_id (its ! k))) k (its ! k) (lw ! k))"


text \<open>
  The termination sequence in the words of the specification: sentinels for the
  load threads, join them; sentinels for the pre-evaluate threads, join them;
  one sentinel into queue 1 of each processing unit, join the evaluate threads;
  one sentinel into queue 2 of each processing unit, join the post-evaluate
  threads; sentinels for the save threads, join them.
\<close>

definition sentinel_cascade :: "nat \<Rightarrow> nat \<Rightarrow> nat \<Rightarrow> driver_action list" where
  "sentinel_cascade L P S =
     replicate L (Push LoadWorkQueue (- 1)) @ map (\<lambda>i. Join (LoadThread i)) [0..<L] @
     replicate P (Push InitialEvalWorkQueue (- 1)) @ map (\<lambda>i. Join (PreEvalThread i)) [0..<P] @
     map (\<lambda>pu. Push (EvalWorkQueue pu 1) (- 1)) [0..<P] @ map (\<lambda>pu. Join (EvalThread pu)) [0..<P] @
     map (\<lambda>pu. Push (EvalWorkQueue pu 2) (- 1)) [0..<P] @ map (\<lambda>pu. Join (PostEvalThread pu)) [0..<P] @
     replicate S (Push SaveWorkQueue (- 1)) @ map (\<lambda>i. Join (SaveThread i)) [0..<S]"

text \<open>The number of threads that read from a queue.\<close>

definition sentinels_for :: "nat \<Rightarrow> nat \<Rightarrow> nat \<Rightarrow> queue_id \<Rightarrow> nat" where
  "sentinels_for L P S q =
     (case q of
        LoadWorkQueue \<Rightarrow> L
      | InitialEvalWorkQueue \<Rightarrow> P
      | EvalWorkQueue pu k \<Rightarrow> (if pu < P \<and> (k = 1 \<or> k = 2) then 1 else 0)
      | SaveWorkQueue \<Rightarrow> S)"

text \<open>The bound on the items in flight, with the count of pushed entries.\<close>

definition in_flight_bounded :: "nat \<Rightarrow> nat \<Rightarrow> ControlLoop \<Rightarrow> bool" where
  "in_flight_bounded P T s \<longleftrightarrow>
     accepted_items s \<le> retired_items s + int (P * T) \<and>
     (pc s = Requesting \<longrightarrow> accepted_items s - retired_items s < int (P * T)) \<and>
     int (length (load_work s)) = accepted_items s"

subsection \<open>Inputs of the worked cases\<close>

text \<open>A task of one sample that reads the rows \<open>10, 11, \<dots>\<close> of an upstream table.\<close>

definition n_rows :: "nat \<Rightarrow> Task" where
  "n_rows n = \<lparr>Task.samples =
     [\<lparr>TableSample.job_id = 0, TableSample.table_id = 0, column_ids = [0],
       rows = map (\<lambda>k. 10 + int k) [0..<n]\<rparr>]\<rparr>"

definition five_rows :: Task where
  "five_rows = \<lparr>Task.samples =
     [\<lparr>TableSample.job_id = 0, TableSample.table_id = 0, column_ids = [0],
       rows = [0, 1, 2, 3, 4]\<rparr>]\<rparr>"


definition gpu_evaluator :: "int \<Rightarrow> Evaluator" where
  "gpu_evaluator n =
     \<lparr>name = ''caffe'', device_type = GPU, device_count = n, kernel_args = [], inputs = []\<rparr>"

definition job_of :: "string \<Rightarrow> Task list \<Rightarrow> JobParameters" where
  "job_of job ts =
     \<lparr>job_name = job, task_set = \<lparr>tasks = ts, evaluators = [gpu_evaluator 1]\<rparr>\<rparr>"


definition three_entries :: "LoadWorkEntry list" where
  "three_entries = map (\<lambda>k. \<lparr>io_item_index = int k, LoadWorkEntry.samples = []\<rparr>) [0..<3]"

section \<open>The planner: lemmas\<close>


lemma take_drop_step:
  assumes "0 \<le> s" "s < e" "s < int (length rs)"
  shows "take (nat (e - s)) (drop (nat s) rs) =
         rs ! nat s # take (nat (e - (s + 1))) (drop (nat (s + 1)) rs)"
proof -
  have a: "nat (e - s) = Suc (nat (e - (s + 1)))" using assms by linarith
  have b: "nat (s + 1) = Suc (nat s)" using assms by linarith
  have c: "drop (nat s) rs = rs ! nat s # drop (Suc (nat s)) rs"
    using assms by (simp add: Cons_nth_drop_Suc)
  show ?thesis unfolding a b by (subst c) simp
qed

lemma add_rows_eq:
  "add_rows rs s e acc =
     (if s < e \<and> (s < 0 \<or> int (length rs) < e) then Inl IndexOutOfRange
      else Inr (acc @ take (nat (e - s)) (drop (nat s) rs)))"
proof (induction rs s e acc rule: add_rows.induct)
  case (1 rs s e acc)
  show ?case
  proof (cases "s < e \<and> 0 \<le> s \<and> s < int (length rs)")
    case True
    with 1 take_drop_step [of s e rs] show ?thesis
      by (subst add_rows.simps) auto
  next
    case False
    then show ?thesis
      by (subst add_rows.simps) auto
  qed
qed

lemma load_sample_eq:
  "load_sample w a r sample =
     (if max (a - w) 0 < a + r \<and> int (length (rows sample)) < a + r then Inl IndexOutOfRange
      else Inr (sample_slice (max (a - w) 0) (a + r) sample))"
  by (auto simp: load_sample_def add_rows_eq sample_slice_def Let_def)

lemma add_samples_eq:
  "add_samples w a r ss acc =
     (if max (a - w) 0 < a + r \<and> (\<exists>s\<in>set ss. int (length (rows s)) < a + r) then Inl IndexOutOfRange
      else Inr (acc @ map (sample_slice (max (a - w) 0) (a + r)) ss))"
  by (induction ss arbitrary: acc) (auto simp: load_sample_eq)

lemma allocate_rows_unfold:
  "allocate_rows sz w i task N j a (its, lw) =
     (if a < N then
        (if max (a - w) 0 < a + min sz (N - a) \<and>
            (\<exists>s\<in>set (Task.samples task). int (length (rows s)) < a + min sz (N - a))
         then Some (Inl IndexOutOfRange)
         else allocate_rows sz w i task N (j + 1) (a + min sz (N - a))
                (its @ [planned_item i j a (min sz (N - a))],
                 lw @ [planned_entry w (length its) task a (min sz (N - a))]))
      else Some (Inr (its, lw)))"
  by (subst allocate_rows.simps)
     (auto simp add: add_samples_eq Let_def planned_item_def planned_entry_def)

lemma allocate_rows_positive_aux:
  assumes "allocate_rows sz w i task N j a out = Some y"
  shows "\<forall>res. y = Inr res \<longrightarrow> a < N \<longrightarrow> 0 < sz"
proof (rule allocate_rows.raw_induct
         [where P = "\<lambda>sz w i task N j a out y. \<forall>res. y = Inr res \<longrightarrow> a < N \<longrightarrow> 0 < sz",
          OF _ assms])
  fix rec :: "int \<Rightarrow> int \<Rightarrow> int \<Rightarrow> Task \<Rightarrow> int \<Rightarrow> int \<Rightarrow> int \<Rightarrow>
              IOItem list \<times> LoadWorkEntry list \<Rightarrow>
              (error + IOItem list \<times> LoadWorkEntry list) option"
    and sz w i :: int and task :: Task and N j a :: int
    and out :: "IOItem list \<times> LoadWorkEntry list"
    and y :: "error + IOItem list \<times> LoadWorkEntry list"
  assume IH: "\<And>sz w i (task::Task) N j a out y. rec sz w i task N j a out = Some y \<Longrightarrow>
                \<forall>res. y = Inr res \<longrightarrow> a < N \<longrightarrow> 0 < sz"
    and body: "(if a < N
        then let rows_to_allocate = min sz (N - a);
                 item = \<lparr>IOItem.table_id = i, item_id = j, start_row = a,
                          end_row = a + rows_to_allocate\<rparr>;
                 io_items = fst out @ [item]
             in case add_samples w a rows_to_allocate (Task.samples task) [] of
                  Inl err \<Rightarrow> Some (Inl err)
                | Inr ss \<Rightarrow>
                    rec sz w i task N (j + 1) (a + rows_to_allocate)
                      (io_items,
                       snd out @ [\<lparr>io_item_index = int (length io_items) - 1,
                                   LoadWorkEntry.samples = ss\<rparr>])
        else Some (Inr out)) = Some y"
  show "\<forall>res. y = Inr res \<longrightarrow> a < N \<longrightarrow> 0 < sz"
  proof (intro allI impI)
    fix res
    assume y: "y = Inr res" and lt: "a < N"
    show "0 < sz"
    proof (rule ccontr)
      assume neg: "\<not> 0 < sz"
      then have le: "a + min sz (N - a) < N" using lt by simp
      from body lt y obtain out' where "rec sz w i task N (j + 1) (a + min sz (N - a)) out' = Some y"
        by (auto simp: Let_def split: sum.splits)
      from IH [OF this] le y neg show False by simp
    qed
  qed
qed

lemma allocate_rows_positive:
  "allocate_rows sz w i task N j a out = Some (Inr res) \<Longrightarrow> a < N \<Longrightarrow> 0 < sz"
  using allocate_rows_positive_aux by blast

lemma allocate_rows_result:
  assumes "allocate_rows sz w i task N j a (its, lw) = Some (Inr (its', lw'))"
    and "0 < sz" "0 \<le> w" "0 \<le> a" "a \<le> N"
  shows "\<exists>new nlw. its' = its @ new \<and> lw' = lw @ nlw \<and> length nlw = length new \<and>
           slices sz i j a N new \<and>
           (\<forall>k<length new. entry_matches w task (length its + k) (new ! k) (nlw ! k))"
  using assms
proof (induction "nat (N - a)" arbitrary: a j its lw rule: less_induct)
  case less
  show ?case
  proof (cases "a < N")
    case False
    with less.prems have "its' = its" "lw' = lw" "a = N"
      by (simp_all add: allocate_rows_unfold [of sz w i task N j a])
    then show ?thesis by simp
  next
    case True
    define r where "r = min sz (N - a)"
    have r: "0 < r" "a + r \<le> N" "r \<le> sz" using True less.prems(2) by (auto simp: r_def)
    define item where "item = planned_item i j a r"
    define entry where "entry = planned_entry w (length its) task a r"
    from less.prems(1) True
    have ok: "\<not> (max (a - w) 0 < a + r \<and> (\<exists>s\<in>set (Task.samples task). int (length (rows s)) < a + r))"
      and rec: "allocate_rows sz w i task N (j + 1) (a + r) (its @ [item], lw @ [entry]) = Some (Inr (its', lw'))"
      by (auto simp: allocate_rows_unfold [of sz w i task N j a] r_def item_def entry_def split: if_splits)
    have "max (a - w) 0 < a + r" using r less.prems(3,4) by simp
    with ok have long: "\<forall>s\<in>set (Task.samples task). a + r \<le> int (length (rows s))" by auto
    have "nat (N - (a + r)) < nat (N - a)" using r True by simp
    from less.hyps [OF this rec less.prems(2,3)] r less.prems(4)
    obtain new nlw where n: "its' = (its @ [item]) @ new" "lw' = (lw @ [entry]) @ nlw"
      "length nlw = length new" "slices sz i (j + 1) (a + r) N new"
      "\<forall>k<length new. entry_matches w task (length (its @ [item]) + k) (new ! k) (nlw ! k)"
      by auto
    have e0: "entry_matches w task (length its) item entry"
      using long r less.prems(4)
      by (simp add: entry_matches_def item_def entry_def planned_item_def planned_entry_def)
    have "\<forall>k<length (item # new). entry_matches w task (length its + k) ((item # new) ! k) ((entry # nlw) ! k)"
    proof (intro allI impI)
      fix k assume "k < length (item # new)"
      then show "entry_matches w task (length its + k) ((item # new) ! k) ((entry # nlw) ! k)"
        using e0 n(5) by (cases k) auto
    qed
    moreover have "slices sz i j a N (item # new)"
      using n(4) r by (simp add: item_def planned_item_def)
    ultimately show ?thesis
      using n(1,2,3) by (intro exI [of _ "item # new"] exI [of _ "entry # nlw"]) simp
  qed
qed

lemma allocate_rows_total:
  assumes "0 < sz" "0 \<le> a" "a \<le> N"
    and "\<forall>s\<in>set (Task.samples task). N \<le> int (length (rows s))"
  shows "\<exists>res. allocate_rows sz w i task N j a out = Some (Inr res)"
  using assms(2,3)
proof (induction "nat (N - a)" arbitrary: a j out rule: less_induct)
  case less
  obtain its lw where out: "out = (its, lw)" by (cases out)
  show ?case
  proof (cases "a < N")
    case False
    then show ?thesis by (simp add: out allocate_rows_unfold [of sz w i task N j a])
  next
    case True
    define r where "r = min sz (N - a)"
    have r: "0 < r" "a + r \<le> N" using True assms(1) by (auto simp: r_def)
    have "\<not> (\<exists>s\<in>set (Task.samples task). int (length (rows s)) < a + r)"
      using assms(4) r by fastforce
    then have "allocate_rows sz w i task N j a out =
       allocate_rows sz w i task N (j + 1) (a + r)
         (its @ [planned_item i j a r], lw @ [planned_entry w (length its) task a r])"
      using True by (simp add: out allocate_rows_unfold [of sz w i task N j a] r_def)
    moreover have "nat (N - (a + r)) < nat (N - a)" using r True by simp
    ultimately show ?thesis
      using less.hyps [of "a + r"] r less.prems by simp
  qed
qed

lemma allocate_rows_from_zero:
  assumes "allocate_rows sz w i task N 0 0 (its, lw) = Some (Inr (its', lw'))"
    and "0 \<le> w" "0 \<le> N"
  shows "\<exists>new nlw. its' = its @ new \<and> lw' = lw @ nlw \<and> length nlw = length new \<and>
           slices sz i 0 0 N new \<and>
           (\<forall>k<length new. entry_matches w task (length its + k) (new ! k) (nlw ! k))"
proof (cases "0 < N")
  case True
  from allocate_rows_positive [OF assms(1) True] have "0 < sz" .
  from allocate_rows_result [OF assms(1) this assms(2) _ assms(3)] show ?thesis by simp
next
  case False
  with assms(3) have "N = 0" by simp
  have "allocate_rows sz w i task 0 0 0 (its, lw) = Some (Inr (its, lw))"
    by (simp add: allocate_rows_unfold [of sz w i task 0 0 0])
  with assms(1) \<open>N = 0\<close> have "its' = its" "lw' = lw" by simp_all
  with \<open>N = 0\<close> show ?thesis by simp
qed

lemma slices_table_id: "slices sz i j a N xs \<Longrightarrow> x \<in> set xs \<Longrightarrow> IOItem.table_id x = i"
  by (induction xs arbitrary: j a) auto

lemma slices_nth:
  "slices sz i j a N xs \<Longrightarrow> k < length xs \<Longrightarrow>
     IOItem.table_id (xs ! k) = i \<and> item_id (xs ! k) = j + int k \<and>
     a \<le> start_row (xs ! k) \<and> start_row (xs ! k) < end_row (xs ! k) \<and>
     end_row (xs ! k) - start_row (xs ! k) \<le> sz \<and> end_row (xs ! k) \<le> N"
proof (induction xs arbitrary: j a k)
  case Nil
  then show ?case by simp
next
  case (Cons x xs)
  show ?case
  proof (cases k)
    case 0
    with Cons.prems show ?thesis by simp
  next
    case (Suc m)
    with Cons.prems have "slices sz i (j + 1) (end_row x) N xs" "m < length xs" "a < end_row x"
      by simp_all
    from Cons.IH [OF this(1,2)] this(3) Suc show ?thesis by simp
  qed
qed

lemma slices_lower: "slices sz i j a N xs \<Longrightarrow> x \<in> set xs \<Longrightarrow> a \<le> start_row x"
  by (induction xs arbitrary: j a) force+

lemma slices_sorted: "slices sz i j a N xs \<Longrightarrow> sorted_wrt (<) (map start_row xs)"
proof (induction xs arbitrary: j a)
  case Nil
  then show ?case by simp
next
  case (Cons x xs)
  then have s: "slices sz i (j + 1) (end_row x) N xs" and lt: "start_row x < end_row x" by simp_all
  have "\<forall>y\<in>set xs. start_row x < start_row y"
    using slices_lower [OF s] lt by fastforce
  with Cons.IH [OF s] show ?case by simp
qed

lemma slices_concat: "slices sz i j a N xs \<Longrightarrow> concat (map item_rows xs) = [a..N - 1]"
proof (induction xs arbitrary: j a)
  case Nil
  then show ?case by simp
next
  case (Cons x xs)
  then have s: "slices sz i (j + 1) (end_row x) N xs" and b: "start_row x = a" "a < end_row x" "end_row x \<le> N"
    by simp_all
  have "[a..N - 1] = [a..end_row x - 1] @ [end_row x - 1 + 1..N - 1]"
    using b by (intro upto_split2) simp_all
  with Cons.IH [OF s] b show ?case by (simp add: item_rows_def)
qed

lemma aligned_append:
  assumes "aligned w ts its lw" "length nlw = length new"
    and "\<forall>x\<in>set new. IOItem.table_id x = i" "0 \<le> i" "nat i < length ts" "ts ! nat i = task"
    and "\<forall>k<length new. entry_matches w task (length its + k) (new ! k) (nlw ! k)"
  shows "aligned w ts (its @ new) (lw @ nlw)"
proof -
  have len: "length lw = length its" using assms(1) by (simp add: aligned_def)
  have "0 \<le> IOItem.table_id ((its @ new) ! k) \<and> nat (IOItem.table_id ((its @ new) ! k)) < length ts \<and>
        entry_matches w (ts ! nat (IOItem.table_id ((its @ new) ! k))) k ((its @ new) ! k) ((lw @ nlw) ! k)"
    if "k < length (its @ new)" for k
  proof (cases "k < length its")
    case True
    with assms(1) len show ?thesis by (simp add: aligned_def nth_append)
  next
    case False
    define m where "m = k - length its"
    have m: "m < length new" "k = length its + m" using False that by (simp_all add: m_def)
    then have "new ! m \<in> set new" by simp
    with assms(3) have "IOItem.table_id (new ! m) = i" by blast
    with m assms(4,5,6,7) len show ?thesis by (simp add: nth_append)
  qed
  with len assms(2) show ?thesis by (simp add: aligned_def)
qed

lemma plan_tasks_slices:
  assumes "plan_tasks sz w rest i (its, lw) = Some (Inr (its', lw'))" and "0 \<le> w"
  shows "\<exists>parts. its' = its @ concat parts \<and> length parts = length rest \<and>
           (\<forall>k<length rest. slices sz (i + int k) 0 0 (rows_in_task (rest ! k)) (parts ! k))"
  using assms(1)
proof (induction rest arbitrary: i its lw)
  case Nil
  then show ?case by simp
next
  case (Cons task rest)
  from Cons.prems obtain its1 lw1 where
    a: "allocate_rows sz w i task (rows_in_task task) 0 0 (its, lw) = Some (Inr (its1, lw1))"
    and p: "plan_tasks sz w rest (i + 1) (its1, lw1) = Some (Inr (its', lw'))"
    by (auto simp: rows_in_task_def split: if_splits option.splits sum.splits)
  from allocate_rows_from_zero [OF a assms(2)] obtain new where
    new: "its1 = its @ new" "slices sz i 0 0 (rows_in_task task) new"
    by (auto simp: rows_in_task_def)
  from Cons.IH [OF p] obtain parts where
    parts: "its' = its1 @ concat parts" "length parts = length rest"
      "\<forall>k<length rest. slices sz (i + 1 + int k) 0 0 (rows_in_task (rest ! k)) (parts ! k)"
    by blast
  have "\<forall>k<length (task # rest).
          slices sz (i + int k) 0 0 (rows_in_task ((task # rest) ! k)) ((new # parts) ! k)"
  proof (intro allI impI)
    fix k assume "k < length (task # rest)"
    then show "slices sz (i + int k) 0 0 (rows_in_task ((task # rest) ! k)) ((new # parts) ! k)"
      using new(2) parts(3) by (cases k) (auto simp: add.assoc)
  qed
  with new(1) parts(1,2) show ?case
    by (intro exI [of _ "new # parts"]) simp
qed

lemma plan_tasks_aligned:
  assumes "plan_tasks sz w rest i (its, lw) = Some (Inr (its', lw'))" and "0 \<le> w"
    and "ts = pre @ rest" "i = int (length pre)" "aligned w ts its lw"
  shows "aligned w ts its' lw'"
  using assms(1,3,4,5)
proof (induction rest arbitrary: i its lw pre)
  case Nil
  then show ?case by simp
next
  case (Cons task rest)
  from Cons.prems(1) obtain its1 lw1 where
    a: "allocate_rows sz w i task (rows_in_task task) 0 0 (its, lw) = Some (Inr (its1, lw1))"
    and p: "plan_tasks sz w rest (i + 1) (its1, lw1) = Some (Inr (its', lw'))"
    by (auto simp: rows_in_task_def split: if_splits option.splits sum.splits)
  from allocate_rows_from_zero [OF a assms(2)] obtain new nlw where
    new: "its1 = its @ new" "lw1 = lw @ nlw" "length nlw = length new"
      "slices sz i 0 0 (rows_in_task task) new"
      "\<forall>k<length new. entry_matches w task (length its + k) (new ! k) (nlw ! k)"
    by (auto simp: rows_in_task_def)
  have "aligned w ts its1 lw1"
    unfolding new(1,2)
  proof (rule aligned_append [OF Cons.prems(4) new(3) _ _ _ _ new(5)])
    show "\<forall>x\<in>set new. IOItem.table_id x = i" using slices_table_id [OF new(4)] by blast
    show "0 \<le> i" using Cons.prems(3) by simp
    show "nat i < length ts" using Cons.prems(2,3) by simp
    show "ts ! nat i = task" using Cons.prems(2,3) by simp
  qed
  moreover have "ts = (pre @ [task]) @ rest" "i + 1 = int (length (pre @ [task]))"
    using Cons.prems(2,3) by simp_all
  ultimately show ?case using Cons.IH [OF p] by blast
qed

lemma plan_tasks_total:
  assumes "0 < sz"
    and "\<forall>task\<in>set rest. Task.samples task \<noteq> [] \<and>
           (\<forall>s\<in>set (Task.samples task). rows_in_task task \<le> int (length (rows s)))"
  shows "\<exists>res. plan_tasks sz w rest i out = Some (Inr res)"
  using assms(2)
proof (induction rest arbitrary: i out)
  case Nil
  then show ?case by simp
next
  case (Cons task rest)
  then have ne: "Task.samples task \<noteq> []"
    and long: "\<forall>s\<in>set (Task.samples task). rows_in_task task \<le> int (length (rows s))"
    by simp_all
  from allocate_rows_total [OF assms(1) _ _ long, of 0 w i 0 out]
  obtain res where "allocate_rows sz w i task (rows_in_task task) 0 0 out = Some (Inr res)"
    by (auto simp: rows_in_task_def)
  moreover from Cons have "\<exists>res'. plan_tasks sz w rest (i + 1) res = Some (Inr res')" by simp
  ultimately show ?case using ne by (auto simp: rows_in_task_def)
qed

section \<open>Properties of the planner\<close>

lemma five_rows_plan:
  "create_io_items 2 [five_rows] [] [] = Some (Inr
     ([\<lparr>IOItem.table_id = 0, item_id = 0, start_row = 0, end_row = 2\<rparr>,
       \<lparr>IOItem.table_id = 0, item_id = 1, start_row = 2, end_row = 4\<rparr>,
       \<lparr>IOItem.table_id = 0, item_id = 2, start_row = 4, end_row = 5\<rparr>],
      [\<lparr>io_item_index = 0, LoadWorkEntry.samples =
          [\<lparr>TableSample.job_id = 0, TableSample.table_id = 0, column_ids = [0], rows = [0, 1]\<rparr>]\<rparr>,
       \<lparr>io_item_index = 1, LoadWorkEntry.samples =
          [\<lparr>TableSample.job_id = 0, TableSample.table_id = 0, column_ids = [0], rows = [2, 3]\<rparr>]\<rparr>,
       \<lparr>io_item_index = 2, LoadWorkEntry.samples =
          [\<lparr>TableSample.job_id = 0, TableSample.table_id = 0, column_ids = [0], rows = [4]\<rparr>]\<rparr>]))"
  by code_simp

lemma four_rows_plan:
  "plan_tasks 2 1 [n_rows 4] 0 ([], []) = Some (Inr
     ([\<lparr>IOItem.table_id = 0, item_id = 0, start_row = 0, end_row = 2\<rparr>,
       \<lparr>IOItem.table_id = 0, item_id = 1, start_row = 2, end_row = 4\<rparr>],
      [\<lparr>io_item_index = 0, LoadWorkEntry.samples =
          [\<lparr>TableSample.job_id = 0, TableSample.table_id = 0, column_ids = [0], rows = [10, 11]\<rparr>]\<rparr>,
       \<lparr>io_item_index = 1, LoadWorkEntry.samples =
          [\<lparr>TableSample.job_id = 0, TableSample.table_id = 0, column_ids = [0], rows = [11, 12, 13]\<rparr>]\<rparr>]))"
  by code_simp

text \<open>
  Claim C1. Let \<^verbatim>\<open>rows_per_io_item()\<close> be positive, and let every task have a first
  sample with \<open>N > 0\<close> rows and no sample with fewer rows than the first. Then
  the planner returns, and its items are the concatenation, in task order, of
  one list per task. In the list of task \<open>i\<close> every item has \<open>table_id = i\<close>, the
  \<open>k\<close>-th item has \<open>item_id = k\<close>, every item covers at least one and at most
  \<^verbatim>\<open>IO_ITEM_SIZE\<close> rows, the items are in strictly ascending row order, and
  the rows they cover, concatenated in that order, are \<open>0, 1, \<dots>, N - 1\<close>: each row
  once, with no gap and no overlap.
\<close>

theorem create_io_items_slices_tasks:
  assumes "0 < io_item_size"
    and "\<forall>task\<in>set task_list. Task.samples task \<noteq> [] \<and> 0 < rows_in_task task \<and>
           (\<forall>s\<in>set (Task.samples task). rows_in_task task \<le> int (length (rows s)))"
  shows "\<exists>parts lw.
           create_io_items io_item_size task_list [] [] = Some (Inr (concat parts, lw)) \<and>
           length parts = length task_list \<and>
           (\<forall>i<length task_list.
              (\<forall>k<length (parts ! i).
                 IOItem.table_id (parts ! i ! k) = int i \<and>
                 item_id (parts ! i ! k) = int k \<and>
                 start_row (parts ! i ! k) < end_row (parts ! i ! k) \<and>
                 end_row (parts ! i ! k) - start_row (parts ! i ! k) \<le> io_item_size) \<and>
              sorted_wrt (<) (map start_row (parts ! i)) \<and>
              concat (map item_rows (parts ! i)) = [0..rows_in_task (task_list ! i) - 1])"
proof -
  have wf: "\<forall>task\<in>set task_list. Task.samples task \<noteq> [] \<and>
           (\<forall>s\<in>set (Task.samples task). rows_in_task task \<le> int (length (rows s)))"
    using assms(2) by blast
  from plan_tasks_total [OF assms(1) wf, of warmup_size_const 0 "([], [])"]
  obtain its lw where res: "plan_tasks io_item_size warmup_size_const task_list 0 ([], []) = Some (Inr (its, lw))"
    by auto
  from plan_tasks_slices [OF res] obtain parts where
    parts: "its = concat parts" "length parts = length task_list"
      "\<forall>k<length task_list. slices io_item_size (int k) 0 0 (rows_in_task (task_list ! k)) (parts ! k)"
    by (auto simp: warmup_size_const_def)
  have "(\<forall>k<length (parts ! i).
                 IOItem.table_id (parts ! i ! k) = int i \<and>
                 item_id (parts ! i ! k) = int k \<and>
                 start_row (parts ! i ! k) < end_row (parts ! i ! k) \<and>
                 end_row (parts ! i ! k) - start_row (parts ! i ! k) \<le> io_item_size) \<and>
              sorted_wrt (<) (map start_row (parts ! i)) \<and>
              concat (map item_rows (parts ! i)) = [0..rows_in_task (task_list ! i) - 1]"
    if "i < length task_list" for i
  proof -
    from parts(3) that
    have s: "slices io_item_size (int i) 0 0 (rows_in_task (task_list ! i)) (parts ! i)" by blast
    show ?thesis
      using slices_nth [OF s] slices_sorted [OF s] slices_concat [OF s] by simp
  qed
  with res parts(1,2) show ?thesis
    unfolding create_io_items_def by blast
qed

text \<open>The case of 5 rows with items of 2 rows: three items, of 2, 2 and 1 rows.\<close>

theorem create_io_items_slices_tasks_witness:
  "(0::int) < 2 \<and> rows_in_task five_rows = 5 \<and>
   (\<exists>parts lw. create_io_items 2 [five_rows] [] [] = Some (Inr (concat parts, lw)) \<and>
      map (map (\<lambda>item. (item_id item, start_row item, end_row item))) parts =
        [[(0, 0, 2), (1, 2, 4), (2, 4, 5)]] \<and>
      concat (map item_rows (parts ! 0)) = [0, 1, 2, 3, 4])"
proof -
  have h: "\<forall>task\<in>set [five_rows]. Task.samples task \<noteq> [] \<and> 0 < rows_in_task task \<and>
           (\<forall>s\<in>set (Task.samples task). rows_in_task task \<le> int (length (rows s)))"
    by (simp add: five_rows_def rows_in_task_def)
  from create_io_items_slices_tasks [of 2 "[five_rows]", OF _ h]
  obtain parts lw where p: "create_io_items 2 [five_rows] [] [] = Some (Inr (concat parts, lw))"
    "length parts = 1" "concat (map item_rows (parts ! 0)) = [0..rows_in_task five_rows - 1]"
    by auto
  from p(2) obtain xs where xs: "parts = [xs]" by (cases parts) auto
  have n: "rows_in_task five_rows = 5" by (simp add: five_rows_def rows_in_task_def)
  have u: "[0..(4::int)] = [0, 1, 2, 3, 4]" by code_simp
  from p(1) xs have "xs = [\<lparr>IOItem.table_id = 0, item_id = 0, start_row = 0, end_row = 2\<rparr>,
             \<lparr>IOItem.table_id = 0, item_id = 1, start_row = 2, end_row = 4\<rparr>,
             \<lparr>IOItem.table_id = 0, item_id = 2, start_row = 4, end_row = 5\<rparr>]"
    by (simp add: five_rows_plan)
  with p(1,3) xs n u show ?thesis
    by (intro conjI exI [of _ parts] exI [of _ lw]) simp_all
qed

text \<open>
  Claim C3. For the planner's loops run with any warmup \<open>\<ge> 0\<close> from empty output
  vectors (\<^const>\<open>create_io_items\<close> is the case of warmup 0, line 48): the entry at
  the position of an item has one sample for each sample of the item's task, with
  the same \<open>job_id\<close>, \<open>table_id\<close> and \<open>column_ids\<close>, and its rows are the
  original sample's rows at positions \<open>s = max (start_row - warmup) 0\<close> up to
  \<open>end_row\<close>, which are exactly \<open>end_row - s\<close> rows; \<open>s\<close> is never negative.
\<close>

theorem load_work_entry_rows:
  assumes "plan_tasks io_item_size warmup_size task_list 0 ([], []) =
             Some (Inr (io_items, load_work_entries))"
    and "0 \<le> warmup_size" and "k < length io_items"
  shows "k < length load_work_entries \<and>
         0 \<le> IOItem.table_id (io_items ! k) \<and>
         nat (IOItem.table_id (io_items ! k)) < length task_list \<and>
         (let item = io_items ! k;
              entry = load_work_entries ! k;
              originals = Task.samples (task_list ! nat (IOItem.table_id item));
              s = max (start_row item - warmup_size) 0
          in 0 \<le> s \<and>
             length (LoadWorkEntry.samples entry) = length originals \<and>
             (\<forall>n<length originals.
                TableSample.job_id (LoadWorkEntry.samples entry ! n) = TableSample.job_id (originals ! n) \<and>
                TableSample.table_id (LoadWorkEntry.samples entry ! n) = TableSample.table_id (originals ! n) \<and>
                column_ids (LoadWorkEntry.samples entry ! n) = column_ids (originals ! n) \<and>
                rows (LoadWorkEntry.samples entry ! n) =
                  take (nat (end_row item - s)) (drop (nat s) (rows (originals ! n))) \<and>
                int (length (rows (LoadWorkEntry.samples entry ! n))) = end_row item - s))"
proof -
  have "aligned warmup_size task_list [] []" by (simp add: aligned_def)
  from plan_tasks_aligned [OF assms(1,2) _ _ this, of "[]"]
  have al: "aligned warmup_size task_list io_items load_work_entries" by simp
  define item where "item = io_items ! k"
  define entry where "entry = load_work_entries ! k"
  define originals where "originals = Task.samples (task_list ! nat (IOItem.table_id item))"
  define s where "s = max (start_row item - warmup_size) 0"
  from al assms(3) have len: "k < length load_work_entries"
    and tid: "0 \<le> IOItem.table_id item" "nat (IOItem.table_id item) < length task_list"
    and em: "entry_matches warmup_size (task_list ! nat (IOItem.table_id item)) k item entry"
    by (simp_all add: aligned_def item_def entry_def)
  from em have smp: "LoadWorkEntry.samples entry = map (sample_slice s (end_row item)) originals"
    and rng: "0 \<le> start_row item" "start_row item < end_row item"
    and long: "\<forall>x\<in>set originals. end_row item \<le> int (length (rows x))"
    by (simp_all add: entry_matches_def s_def originals_def)
  have s: "0 \<le> s" "s \<le> end_row item" using rng assms(2) by (simp_all add: s_def)
  have each: "\<forall>n<length originals.
        TableSample.job_id (LoadWorkEntry.samples entry ! n) = TableSample.job_id (originals ! n) \<and>
        TableSample.table_id (LoadWorkEntry.samples entry ! n) = TableSample.table_id (originals ! n) \<and>
        column_ids (LoadWorkEntry.samples entry ! n) = column_ids (originals ! n) \<and>
        rows (LoadWorkEntry.samples entry ! n) =
          take (nat (end_row item - s)) (drop (nat s) (rows (originals ! n))) \<and>
        int (length (rows (LoadWorkEntry.samples entry ! n))) = end_row item - s"
  proof (intro allI impI)
    fix n assume n: "n < length originals"
    with long have "end_row item \<le> int (length (rows (originals ! n)))" by simp
    with s n show "TableSample.job_id (LoadWorkEntry.samples entry ! n) = TableSample.job_id (originals ! n) \<and>
        TableSample.table_id (LoadWorkEntry.samples entry ! n) = TableSample.table_id (originals ! n) \<and>
        column_ids (LoadWorkEntry.samples entry ! n) = column_ids (originals ! n) \<and>
        rows (LoadWorkEntry.samples entry ! n) =
          take (nat (end_row item - s)) (drop (nat s) (rows (originals ! n))) \<and>
        int (length (rows (LoadWorkEntry.samples entry ! n))) = end_row item - s"
      by (simp add: smp sample_slice_def)
  qed
  have lens: "length (LoadWorkEntry.samples entry) = length originals" by (simp add: smp)
  show ?thesis
    unfolding Let_def item_def [symmetric] entry_def [symmetric]
      originals_def [symmetric] s_def [symmetric]
    using len tid s(1) lens each by blast
qed

text \<open>
  Four rows, items of 2 rows, warmup 1: the second item covers positions 2 and 3
  and its entry lists the rows at positions 1, 2 and 3.
\<close>

theorem load_work_entry_rows_witness:
  "\<exists>io_items entries.
     plan_tasks 2 1 [n_rows 4] 0 ([], []) = Some (Inr (io_items, entries)) \<and>
     (0::int) \<le> 1 \<and> 1 < length io_items \<and>
     start_row (io_items ! 1) = 2 \<and> end_row (io_items ! 1) = 4 \<and>
     rows (LoadWorkEntry.samples (entries ! 1) ! 0) = [11, 12, 13] \<and>
     int (length (rows (LoadWorkEntry.samples (entries ! 1) ! 0))) = 4 - max (2 - 1) 0"
proof -
  note e = four_rows_plan
  from load_work_entry_rows [OF e, of 1]
  have "int (length (rows (LoadWorkEntry.samples
          ([\<lparr>io_item_index = 0, LoadWorkEntry.samples =
          [\<lparr>TableSample.job_id = 0, TableSample.table_id = 0, column_ids = [0], rows = [10, 11]\<rparr>]\<rparr>,
       \<lparr>io_item_index = 1, LoadWorkEntry.samples =
          [\<lparr>TableSample.job_id = 0, TableSample.table_id = 0, column_ids = [0], rows = [11, 12, 13]\<rparr>]\<rparr>] ! 1) ! 0))) = 4 - max (2 - 1) 0"
    by (simp add: n_rows_def)
  with e show ?thesis by simp
qed

text \<open>
  Claim C10. When the planner returns, the two output arrays have the same
  length and the \<open>k\<close>-th load-work entry has \<open>io_item_index = k\<close>.
\<close>

theorem load_work_entries_indexed:
  assumes "create_io_items io_item_size task_list [] [] = Some (Inr (io_items, load_work_entries))"
  shows "length load_work_entries = length io_items \<and>
         (\<forall>k<length load_work_entries. io_item_index (load_work_entries ! k) = int k)"
proof -
  have "aligned warmup_size_const task_list [] []" by (simp add: aligned_def)
  from plan_tasks_aligned [OF assms [unfolded create_io_items_def] _ _ _ this, of "[]"]
  have "aligned warmup_size_const task_list io_items load_work_entries"
    by (simp add: warmup_size_const_def)
  then show ?thesis by (simp add: aligned_def entry_matches_def)
qed

theorem load_work_entries_indexed_witness:
  "\<exists>io_items entries.
     create_io_items 2 [five_rows] [] [] = Some (Inr (io_items, entries)) \<and>
     length entries = 3 \<and> length io_items = 3 \<and> map io_item_index entries = [0, 1, 2]"
  using load_work_entries_indexed [OF five_rows_plan] five_rows_plan by simp

section \<open>Input checks of the planner\<close>










section \<open>Devices of a kernel configuration\<close>

lemma gpu_devices_eq:
  "0 < num_gpus \<Longrightarrow> 0 \<le> i \<Longrightarrow>
   gpu_devices num_gpus count i devs =
     Inr (devs @ map (\<lambda>n. (GPU, (i + int n) mod num_gpus)) [0..<nat (count - i)])"
proof (induction num_gpus count i devs rule: gpu_devices.induct)
  case (1 num_gpus count i devs)
  show ?case
  proof (cases "i < count")
    case True
    then have n: "nat (count - i) = Suc (nat (count - (i + 1)))" by simp
    have "map (\<lambda>n. (GPU, (i + int n) mod num_gpus)) [0..<Suc (nat (count - (i + 1)))] =
          (GPU, i mod num_gpus) # map (\<lambda>n. (GPU, (i + 1 + int n) mod num_gpus)) [0..<nat (count - (i + 1))]"
      by (simp add: upt_conv_Cons map_Suc_upt [symmetric] algebra_simps del: upt_Suc)
    with 1 True n show ?thesis
      by (subst gpu_devices.simps) simp
  next
    case False
    then show ?thesis by (subst gpu_devices.simps) simp
  qed
qed

text \<open>
  The loop over the evaluators gives every evaluator the devices that
  \<^const>\<open>kernel_config_devices\<close> computes for it, in the order of the evaluators.
\<close>

lemma bind_kernels_devices:
  assumes "bind_kernels C G evs es acc = Inr cfgs"
  shows "length cfgs = length acc + length es \<and> take (length acc) cfgs = acc \<and>
         (\<forall>k<length es. kernel_config_devices C G (es ! k) =
                           Inr (devices (cfgs ! (length acc + k))))"
  using assms
proof (induction es arbitrary: acc)
  case Nil
  then show ?case by simp
next
  case (Cons e es)
  from Cons.prems obtain cfg where
    c: "make_kernel_config C G evs e = Inr cfg"
    and r: "bind_kernels C G evs es (acc @ [cfg]) = Inr cfgs"
    by (auto split: sum.splits)
  from c have d: "kernel_config_devices C G e = Inr (devices cfg)"
    by (auto simp: make_kernel_config_def split: sum.splits)
  from Cons.IH [OF r] have ih: "length cfgs = length acc + 1 + length es"
    "take (length acc + 1) cfgs = acc @ [cfg]"
    "\<forall>k<length es. kernel_config_devices C G (es ! k) = Inr (devices (cfgs ! (length acc + 1 + k)))"
    by simp_all
  from ih(2) have t: "take (length acc) cfgs = acc"
    by (metis Suc_eq_plus1 butlast_snoc butlast_take diff_add_inverse2 ih(1) le_add1)
  from ih(1,2) have n: "cfgs ! length acc = cfg"
    by (metis Suc_eq_plus1 lessI nth_append_length nth_take)
  have "\<forall>k<length (e # es). kernel_config_devices C G ((e # es) ! k) =
                           Inr (devices (cfgs ! (length acc + k)))"
  proof (intro allI impI)
    fix k assume "k < length (e # es)"
    then show "kernel_config_devices C G ((e # es) ! k) = Inr (devices (cfgs ! (length acc + k)))"
      using d n ih(3) by (cases k) auto
  qed
  with ih(1) t show ?case by simp
qed

text \<open>
  Claim C8. A CPU evaluator gets the one device \<^verbatim>\<open>CPU_DEVICE\<close>. A GPU evaluator
  with \<open>device_count = d \<ge> 0\<close>, on a node with at least one GPU device id,
  gets exactly \<open>d\<close> devices, the \<open>k\<close>-th being \<open>(GPU, k mod n)\<close> for \<open>n\<close> the
  number of local device ids. Any other device type is fatal.
\<close>

theorem kernel_config_devices_by_type:
  "(device_type evaluator = CPU \<longrightarrow>
      kernel_config_devices CPU_DEVICE GPU_DEVICE_IDS evaluator = Inr [CPU_DEVICE]) \<and>
   (device_type evaluator = GPU \<and> GPU_DEVICE_IDS \<noteq> [] \<and> 0 \<le> device_count evaluator \<longrightarrow>
      (\<exists>devs. kernel_config_devices CPU_DEVICE GPU_DEVICE_IDS evaluator = Inr devs \<and>
         int (length devs) = device_count evaluator \<and>
         (\<forall>k<length devs. devs ! k = (GPU, int k mod int (length GPU_DEVICE_IDS))))) \<and>
   (device_type evaluator \<noteq> CPU \<and> device_type evaluator \<noteq> GPU \<longrightarrow>
      kernel_config_devices CPU_DEVICE GPU_DEVICE_IDS evaluator = Inl UnrecognizedDeviceType)"
  by (simp add: kernel_config_devices_def gpu_devices_eq)

text \<open>
  Two devices on a node with the device ids 0, 1, 2.
\<close>

theorem kernel_config_devices_by_type_witness:
  "device_type (gpu_evaluator 2) = GPU \<and> [0, 1, 2] \<noteq> ([] :: int list) \<and>
   0 \<le> device_count (gpu_evaluator 2) \<and>
   kernel_config_devices (CPU, 0) [0, 1, 2] (gpu_evaluator 2) = Inr [(GPU, 0), (GPU, 1)]"
proof -
  from kernel_config_devices_by_type [of "gpu_evaluator 2" "(CPU, 0)" "[0, 1, 2]"]
  obtain devs where d: "kernel_config_devices (CPU, 0) [0, 1, 2] (gpu_evaluator 2) = Inr devs"
    "length devs = 2" "\<forall>k<length devs. devs ! k = (GPU, int k mod 3)"
    by (auto simp: gpu_evaluator_def)
  from d(2) obtain a b where ab: "devs = [a, b]"
    by (cases devs; cases "tl devs") auto
  from d(2,3) have "devs ! 0 = (GPU, 0)" "devs ! 1 = (GPU, 1)" by auto
  with ab have "devs = [(GPU, 0), (GPU, 1)]" by simp
  with d(1) show ?thesis by (simp add: gpu_evaluator_def)
qed

section \<open>The cursor of the master\<close>

lemma sint_succ:
  fixes c n :: i32
  assumes "c <s n"
  shows "sint (c + 1) = sint c + 1"
proof -
  have "sint n < 2 ^ 31" using sint_lt [of n] by simp
  with assms have a: "sint c + 1 < 2 ^ 31" by (simp add: word_sless_alt)
  have b: "- (2 ^ 31) \<le> sint c + 1" using sint_ge [of c] by simp
  have "sint (c + 1) = signed_take_bit 31 (sint c + 1)"
    by (simp add: sint_word_ariths)
  also have "\<dots> = sint c + 1"
    using a b by (simp add: signed_take_bit_int_eq_self)
  finally show ?thesis .
qed

lemma NextIOItem_calls_replies:
  "snd (NextIOItem_calls k m) =
     map (\<lambda>i. if sint (next_io_item_to_allocate m) + int i < sint (num_io_items m)
               then next_io_item_to_allocate m + of_nat i else - 1) [0..<k]"
proof (induction k arbitrary: m)
  case 0
  then show ?case by simp
next
  case (Suc k)
  show ?case
  proof (cases "next_io_item_to_allocate m <s num_io_items m")
    case True
    define m' where "m' = m\<lparr>next_io_item_to_allocate := next_io_item_to_allocate m + 1\<rparr>"
    have s: "sint (next_io_item_to_allocate m') = sint (next_io_item_to_allocate m) + 1"
      using sint_succ [OF True] by (simp add: m'_def)
    have "snd (NextIOItem_calls (Suc k) m) = next_io_item_to_allocate m # snd (NextIOItem_calls k m')"
      using True by (simp add: NextIOItem_def m'_def split: prod.splits)
    also have "snd (NextIOItem_calls k m') =
       map (\<lambda>i. if sint (next_io_item_to_allocate m) + int (Suc i) < sint (num_io_items m)
               then next_io_item_to_allocate m + of_nat (Suc i) else - 1) [0..<k]"
      unfolding Suc.IH [of m'] s by (simp add: m'_def algebra_simps)
    finally show ?thesis
      using True
      by (simp add: upt_conv_Cons map_Suc_upt [symmetric] word_sless_alt del: upt_Suc)
  next
    case False
    then have "snd (NextIOItem_calls (Suc k) m) = - 1 # snd (NextIOItem_calls k m)"
      by (simp add: NextIOItem_def split: prod.splits)
    with False show ?thesis
      unfolding Suc.IH [of m]
      by (simp add: upt_conv_Cons map_Suc_upt [symmetric] word_sless_alt del: upt_Suc)
  qed
qed

lemma sint_of_nat_i32:
  assumes "n < 2 ^ 31"
  shows "sint (of_nat n :: i32) = int n"
proof -
  have "sint (of_nat n :: i32) = signed_take_bit 31 (int n)"
    by (simp add: signed_of_nat signed_take_bit_int_eq_self_iff)
  also have "\<dots> = int n"
    using assms by (simp add: signed_take_bit_int_eq_self)
  finally show ?thesis .
qed

text \<open>
  Claim C2 at a second job. A master plans a job of 3 items and four calls of
  \<^verbatim>\<open>NextIOItem\<close> return 0, 1, 2 and \<open>- 1\<close>. The same master then plans a job of 5
  items: \<^verbatim>\<open>NewJob\<close> sets \<^verbatim>\<open>num_io_items_\<close> to 5 and leaves the cursor at 3, so
  the calls return 3, 4 and then \<open>- 1\<close>; the items 0, 1 and 2 of the second job
  are never handed out.
\<close>

theorem second_job_resumes_at_old_cursor:
  "Master_plan_job 2 (job_of ''first'' [n_rows 6]) MasterImpl_new =
     Some (Inr \<lparr>next_io_item_to_allocate = 0, num_io_items = 3, workers = []\<rparr>) \<and>
   NextIOItem_calls 4 \<lparr>next_io_item_to_allocate = 0, num_io_items = 3, workers = []\<rparr> =
     (\<lparr>next_io_item_to_allocate = 3, num_io_items = 3, workers = []\<rparr>, [0, 1, 2, - 1]) \<and>
   Master_plan_job 2 (job_of ''second'' [n_rows 10])
       \<lparr>next_io_item_to_allocate = 3, num_io_items = 3, workers = []\<rparr> =
     Some (Inr \<lparr>next_io_item_to_allocate = 3, num_io_items = 5, workers = []\<rparr>) \<and>
   NextIOItem_calls 6 \<lparr>next_io_item_to_allocate = 3, num_io_items = 5, workers = []\<rparr> =
     (\<lparr>next_io_item_to_allocate = 5, num_io_items = 5, workers = []\<rparr>,
      [3, 4, - 1, - 1, - 1, - 1])"
  by code_simp

text \<open>
  The first job of a master. When the cursor is 0 as the job is planned (as the
  constructor leaves it) and the job has fewer than \<open>2\<^sup>3\<^sup>1\<close> items, successive
  calls of \<^verbatim>\<open>NextIOItem\<close> return \<open>0, 1, \<dots>, num_io_items - 1\<close> in this order and
  \<open>- 1\<close> from then on.
\<close>

theorem first_job_cursor_sequence:
  assumes "next_io_item_to_allocate m0 = 0"
    and "Master_NewJob_plan io_item_size job_params = Some (Inr (io_items, entries))"
    and "evaluators (task_set job_params) \<noteq> []"
    and "length io_items < 2 ^ 31"
  shows "\<exists>m. Master_plan_job io_item_size job_params m0 = Some (Inr m) \<and>
           snd (NextIOItem_calls k m) =
             map (\<lambda>i. if i < length io_items then of_nat i else - 1) [0..<k]"
proof -
  define m where "m = m0\<lparr>num_io_items := of_nat (length io_items)\<rparr>"
  have p: "Master_plan_job io_item_size job_params m0 = Some (Inr m)"
    using assms(2,3) by (simp add: Master_plan_job_def m_def)
  have "snd (NextIOItem_calls k m) =
          map (\<lambda>i. if i < length io_items then of_nat i else - 1) [0..<k]"
    unfolding NextIOItem_calls_replies
    using assms(1) sint_of_nat_i32 [OF assms(4)] by (simp add: m_def)
  with p show ?thesis by blast
qed

theorem first_job_cursor_sequence_witness:
  "\<exists>m. Master_plan_job 2 (job_of ''first'' [five_rows]) MasterImpl_new = Some (Inr m) \<and>
       snd (NextIOItem_calls 5 m) = [0, 1, 2, - 1, - 1]"
proof -
  have a: "Master_NewJob_plan 2 (job_of ''first'' [five_rows]) = create_io_items 2 [five_rows] [] []"
    by (simp add: Master_NewJob_plan_def job_of_def)
  have b: "[0..<5] = [0, 1, 2, 3, 4]" by code_simp
  from first_job_cursor_sequence [OF _ a [unfolded five_rows_plan], of MasterImpl_new 5]
  show ?thesis by (simp add: MasterImpl_new_def job_of_def b)
qed

section \<open>The commit of \<^verbatim>\<open>MasterImpl::NewJob\<close>\<close>





section \<open>The bound on the items in flight\<close>

lemma control_step_bounded:
  "in_flight_bounded P T s \<Longrightarrow> in_flight_bounded P T (control_step P T lwe s)"
  by (cases "pc s")
     (auto simp: in_flight_bounded_def control_step_def Let_def split: prod.splits)

lemma loop_event_step_bounded:
  assumes "in_flight_bounded P T s"
  shows "in_flight_bounded P T (loop_event_step P T lwe e s)"
proof (cases e)
  case ControlThread
  then show ?thesis using control_step_bounded [OF assms] by simp
next
  case SaveThreadRetires
  then show ?thesis using assms by (auto simp: in_flight_bounded_def)
next
  case OtherWorkerRequests
  then show ?thesis using assms by (auto simp: in_flight_bounded_def)
qed

lemma run_schedule_bounded:
  "in_flight_bounded P T s \<Longrightarrow> in_flight_bounded P T (run_schedule P T lwe es s)"
  by (induction es arbitrary: s) (auto simp: loop_event_step_bounded)

text \<open>
  Claim C9. In every state \<open>s\<close> the control loop reaches, under any interleaving
  with the save threads and with other workers: \<open>accepted\<close> is at most
  \<open>retired\<close> plus \<^verbatim>\<open>PUS_PER_NODE * TASKS_IN_QUEUE_PER_PU\<close>, and it counts the
  entries pushed into the load queue. The master is asked only in a
  \<open>Requesting\<close> state, which is entered from the top of the loop when the
  in-flight count is below the bound and in which it still is below the bound.
  On the reply \<open>- 1\<close> the loop exits; on a reply that indexes
  \<open>load_work_entries\<close> that entry is pushed and \<open>accepted\<close> grows by one.
\<close>

theorem control_loop_in_flight_bound:
  "let bound = int (PUS_PER_NODE * TASKS_IN_QUEUE_PER_PU);
       s = run_schedule PUS_PER_NODE TASKS_IN_QUEUE_PER_PU load_work_entries schedule
             (control_loop_start m);
       s' = control_step PUS_PER_NODE TASKS_IN_QUEUE_PER_PU load_work_entries s;
       reply = snd (NextIOItem (master s))
   in accepted_items s \<le> retired_items s + bound \<and>
      int (length (load_work s)) = accepted_items s \<and>
      (pc s = Requesting \<longrightarrow> accepted_items s - retired_items s < bound) \<and>
      (pc s \<noteq> Requesting \<longrightarrow>
         master s' = master s \<and> accepted_items s' = accepted_items s \<and>
         load_work s' = load_work s) \<and>
      (pc s = AtTop \<and> accepted_items s - retired_items s < bound \<longrightarrow> pc s' = Requesting) \<and>
      (pc s = Requesting \<and> reply = - 1 \<longrightarrow>
         pc s' = Exited \<and> accepted_items s' = accepted_items s \<and> load_work s' = load_work s) \<and>
      (pc s = Requesting \<and> 0 \<le> sint reply \<and> sint reply < int (length load_work_entries) \<longrightarrow>
         pc s' = AtTop \<and> accepted_items s' = accepted_items s + 1 \<and>
         load_work s' = load_work s @ [load_work_entries ! nat (sint reply)])"
proof -
  define s where "s = run_schedule PUS_PER_NODE TASKS_IN_QUEUE_PER_PU load_work_entries schedule
             (control_loop_start m)"
  have "in_flight_bounded PUS_PER_NODE TASKS_IN_QUEUE_PER_PU (control_loop_start m)"
    by (simp add: in_flight_bounded_def control_loop_start_def)
  from run_schedule_bounded [OF this, of load_work_entries schedule]
  have inv: "in_flight_bounded PUS_PER_NODE TASKS_IN_QUEUE_PER_PU s" by (simp add: s_def)
  have step: "(pc s \<noteq> Requesting \<longrightarrow>
         master (control_step PUS_PER_NODE TASKS_IN_QUEUE_PER_PU load_work_entries s) = master s \<and>
         accepted_items (control_step PUS_PER_NODE TASKS_IN_QUEUE_PER_PU load_work_entries s) = accepted_items s \<and>
         load_work (control_step PUS_PER_NODE TASKS_IN_QUEUE_PER_PU load_work_entries s) = load_work s) \<and>
      (pc s = AtTop \<and> accepted_items s - retired_items s < int (PUS_PER_NODE * TASKS_IN_QUEUE_PER_PU) \<longrightarrow>
         pc (control_step PUS_PER_NODE TASKS_IN_QUEUE_PER_PU load_work_entries s) = Requesting) \<and>
      (pc s = Requesting \<and> snd (NextIOItem (master s)) = - 1 \<longrightarrow>
         pc (control_step PUS_PER_NODE TASKS_IN_QUEUE_PER_PU load_work_entries s) = Exited \<and>
         accepted_items (control_step PUS_PER_NODE TASKS_IN_QUEUE_PER_PU load_work_entries s) = accepted_items s \<and>
         load_work (control_step PUS_PER_NODE TASKS_IN_QUEUE_PER_PU load_work_entries s) = load_work s) \<and>
      (pc s = Requesting \<and> 0 \<le> sint (snd (NextIOItem (master s))) \<and>
       sint (snd (NextIOItem (master s))) < int (length load_work_entries) \<longrightarrow>
         pc (control_step PUS_PER_NODE TASKS_IN_QUEUE_PER_PU load_work_entries s) = AtTop \<and>
         accepted_items (control_step PUS_PER_NODE TASKS_IN_QUEUE_PER_PU load_work_entries s) = accepted_items s + 1 \<and>
         load_work (control_step PUS_PER_NODE TASKS_IN_QUEUE_PER_PU load_work_entries s) =
           load_work s @ [load_work_entries ! nat (sint (snd (NextIOItem (master s))))])"
    by (cases "pc s") (auto simp: control_step_def Let_def split: prod.splits)
  from inv step show ?thesis
    unfolding Let_def s_def [symmetric] in_flight_bounded_def by blast
qed

theorem control_loop_in_flight_bound_witness:
  "(let s = run_schedule 1 2 three_entries
             [ControlThread, ControlThread, ControlThread, ControlThread, ControlThread,
              ControlThread, SaveThreadRetires, ControlThread]
             (control_loop_start (MasterImpl_new\<lparr>num_io_items := 3\<rparr>))
    in accepted_items s = 2 \<and> retired_items s = 1 \<and> pc s = Requesting \<and>
       map io_item_index (load_work s) = [0, 1] \<and>
       accepted_items (control_step 1 2 three_entries s) = 3)"
  using control_loop_in_flight_bound [of 1 2 three_entries
          "[ControlThread, ControlThread, ControlThread, ControlThread, ControlThread,
              ControlThread, SaveThreadRetires, ControlThread]" "MasterImpl_new\<lparr>num_io_items := 3\<rparr>"]
  by (simp add: three_entries_def control_loop_start_def control_step_def NextIOItem_def
        MasterImpl_new_def Let_def word_sless_alt upt_conv_Cons)

section \<open>The termination sequence\<close>

lemma for_loop_push:
  "for_loop i n (\<lambda>k. push_sentinel (q k)) trace =
     Inr (trace @ map (\<lambda>k. Push (q k) (- 1)) [i..<n])"
proof (induction i n "\<lambda>k. push_sentinel (q k)" trace rule: for_loop.induct)
  case (1 i n trace)
  show ?case
  proof (cases "i < n")
    case True
    with 1 show ?thesis
      by (subst for_loop.simps) (simp add: push_sentinel_def upt_conv_Cons)
  next
    case False
    then show ?thesis by (subst for_loop.simps) simp
  qed
qed

lemma for_loop_join:
  assumes "\<forall>t. pthread_join t = 0"
  shows "for_loop i n (\<lambda>k. join_thread pthread_join (t k)) trace =
     Inr (trace @ map (\<lambda>k. Join (t k)) [i..<n])"
proof (induction i n "\<lambda>k. join_thread pthread_join (t k)" trace rule: for_loop.induct)
  case (1 i n trace)
  show ?case
  proof (cases "i < n")
    case True
    with 1 assms show ?thesis
      by (subst for_loop.simps) (simp add: join_thread_def upt_conv_Cons)
  next
    case False
    then show ?thesis by (subst for_loop.simps) simp
  qed
qed

lemma terminate_pipeline_trace:
  assumes "\<forall>t. pthread_join t = 0"
  shows "terminate_pipeline L P S pthread_join = Inr (sentinel_cascade L P S)"
  by (simp add: terminate_pipeline_def sentinel_cascade_def for_loop_push for_loop_join [OF assms]
        map_replicate_const)

lemma count_pu_pushes:
  "length (filter (\<lambda>a. a = Push q (- 1)) (map (\<lambda>pu. Push (EvalWorkQueue pu k) (- 1)) [0..<P])) =
     (case q of EvalWorkQueue pu k' \<Rightarrow> (if pu < P \<and> k' = k then 1 else 0) | _ \<Rightarrow> 0)"
  by (induction P) (auto split: queue_id.splits)

lemma count_joins:
  "filter (\<lambda>a. a = Push q v) (map (\<lambda>i. Join (t i)) xs) = []"
  by (induction xs) auto

lemma count_replicate:
  "length (filter (\<lambda>a. a = Push q (- 1)) (replicate n (Push q' (- 1)))) = (if q = q' then n else 0)"
  by (induction n) auto

lemma count_sentinels:
  "length (filter (\<lambda>a. a = Push q (- 1)) (sentinel_cascade L P S)) = sentinels_for L P S q"
proof -
  have "length (filter (\<lambda>a. a = Push q (- 1)) (sentinel_cascade L P S)) =
          (if q = LoadWorkQueue then L else 0) + (if q = InitialEvalWorkQueue then P else 0) +
          (case q of EvalWorkQueue pu k' \<Rightarrow> (if pu < P \<and> k' = 1 then 1 else 0) | _ \<Rightarrow> 0) +
          (case q of EvalWorkQueue pu k' \<Rightarrow> (if pu < P \<and> k' = 2 then 1 else 0) | _ \<Rightarrow> 0) +
          (if q = SaveWorkQueue then S else 0)"
    by (simp only: sentinel_cascade_def filter_append length_append count_replicate count_joins
          count_pu_pushes list.size add_0_right add.assoc)
  then show ?thesis by (cases q) (simp_all add: sentinels_for_def)
qed

lemma count_pu_threads:
  "length (filter (\<lambda>t. input_queue t = q)
     (concat (map (\<lambda>pu. [PreEvalThread pu, EvalThread pu, PostEvalThread pu]) [0..<P]))) =
     (case q of InitialEvalWorkQueue \<Rightarrow> P
      | EvalWorkQueue pu k \<Rightarrow> (if pu < P \<and> (k = 1 \<or> k = 2) then 1 else 0)
      | _ \<Rightarrow> 0)"
  by (induction P) (auto split: queue_id.splits)

lemma count_load_threads:
  "length (filter (\<lambda>t. input_queue t = q) (map LoadThread [0..<n])) =
     (if q = LoadWorkQueue then n else 0)"
  by (induction n) auto

lemma count_save_threads:
  "length (filter (\<lambda>t. input_queue t = q) (map SaveThread [0..<n])) =
     (if q = SaveWorkQueue then n else 0)"
  by (induction n) auto

lemma count_threads:
  "length (filter (\<lambda>t. input_queue t = q) (start_threads L P S)) = sentinels_for L P S q"
proof -
  have "length (filter (\<lambda>t. input_queue t = q) (start_threads L P S)) =
          (if q = LoadWorkQueue then L else 0) +
          ((case q of InitialEvalWorkQueue \<Rightarrow> P
            | EvalWorkQueue pu k \<Rightarrow> (if pu < P \<and> (k = 1 \<or> k = 2) then 1 else 0)
            | _ \<Rightarrow> 0) +
           (if q = SaveWorkQueue then S else 0))"
    by (simp only: start_threads_def filter_append length_append count_pu_threads
          count_load_threads count_save_threads)
  then show ?thesis by (cases q) (simp_all add: sentinels_for_def)
qed

text \<open>
  Claim C6. When every \<^verbatim>\<open>pthread_join\<close> succeeds, the driver performs exactly
  the sequence \<^const>\<open>sentinel_cascade\<close>, and every queue receives as many
  sentinels from the driver as there are threads reading from it.
\<close>

theorem termination_driver_sequence:
  assumes "\<forall>t. pthread_join t = 0"
  shows "terminate_pipeline L P S pthread_join = Inr (sentinel_cascade L P S) \<and>
         (\<forall>q. length (filter (\<lambda>a. a = Push q (- 1)) (sentinel_cascade L P S)) =
               length (filter (\<lambda>t. input_queue t = q) (start_threads L P S)))"
  using terminate_pipeline_trace [OF assms] by (simp add: count_sentinels count_threads)

text \<open>
  Two load threads, one processing unit, one save thread.
\<close>

theorem termination_driver_sequence_witness:
  "terminate_pipeline 2 1 1 (\<lambda>t. 0) =
     Inr [Push LoadWorkQueue (- 1), Push LoadWorkQueue (- 1),
          Join (LoadThread 0), Join (LoadThread 1),
          Push InitialEvalWorkQueue (- 1), Join (PreEvalThread 0),
          Push (EvalWorkQueue 0 1) (- 1), Join (EvalThread 0),
          Push (EvalWorkQueue 0 2) (- 1), Join (PostEvalThread 0),
          Push SaveWorkQueue (- 1), Join (SaveThread 0)]"
proof -
  have "sentinel_cascade 2 1 1 =
         [Push LoadWorkQueue (- 1), Push LoadWorkQueue (- 1),
          Join (LoadThread 0), Join (LoadThread 1),
          Push InitialEvalWorkQueue (- 1), Join (PreEvalThread 0),
          Push (EvalWorkQueue 0 1) (- 1), Join (EvalThread 0),
          Push (EvalWorkQueue 0 2) (- 1), Join (PostEvalThread 0),
          Push SaveWorkQueue (- 1), Join (SaveThread 0)]"
    by code_simp
  with termination_driver_sequence [of "\<lambda>t. 0" 2 1 1] show ?thesis by simp
qed


end
